theory Spec2Isabelle
  imports Main "HOL-Library.AList" "HOL-Library.Multiset" "HOL-Library.Sublist"
begin

section \<open>Data model (logicgate/models.py)\<close>

text \<open>
  The pydantic models of \<^verbatim>\<open>models.py\<close>. Several models share field names
  (\<^verbatim>\<open>name\<close>, \<^verbatim>\<open>file_path\<close>, \<^verbatim>\<open>line\<close>), so every field carries a short prefix of its
  model. Line numbers are Python integers and therefore unbounded.
\<close>

record FunctionDef =
  fd_name :: string
  fd_file_path :: string
  fd_start_line :: int
  fd_end_line :: int
  fd_source :: string

record FunctionCall =
  fc_name :: string
  fc_file_path :: string
  fc_line :: int
  fc_object_name :: "string option"

record ImportInfo =
  imp_name :: string
  imp_path :: string
  imp_file_path :: string
  imp_line :: int

record RouteInfo =
  rt_file_path :: string
  rt_http_method :: string
  rt_route_pattern :: string
  rt_handler_start_line :: int
  rt_handler_end_line :: int
  rt_handler_source :: string
  rt_middleware :: "string list"

text \<open>The only exception that the modelled code can raise: pathlib's \<^verbatim>\<open>ValueError\<close>.\<close>

datatype error = ValueError

section \<open>Python dictionaries\<close>

text \<open>
  A Python \<^verbatim>\<open>dict\<close> keeps its keys in order of first insertion, and phase 2 of
  \<^verbatim>\<open>build_graph\<close> iterates over one. A dictionary is therefore an association list:
  \<^const>\<open>map_of\<close> reads it, \<^const>\<open>AList.update\<close> stores a value (in place when the key
  exists, at the end otherwise).
\<close>

definition has_key :: "('k \<times> 'v) list \<Rightarrow> 'k \<Rightarrow> bool" where
  "has_key d k = (map_of d k \<noteq> None)"

definition dict_get :: "('k \<times> 'v) list \<Rightarrow> 'k \<Rightarrow> 'v \<Rightarrow> 'v" where
  "dict_get d k dflt = (case map_of d k of None \<Rightarrow> dflt | Some v \<Rightarrow> v)"

section \<open>The networkx directed graph\<close>

text \<open>
  \<^verbatim>\<open>nx.DiGraph\<close> as the code uses it: the node dictionary maps a node to its
  \<^verbatim>\<open>data\<close> attribute (\<open>None\<close> when the node carries none), and the edges are kept in
  the order of their first insertion, which is the order in which \<^verbatim>\<open>G.neighbors(u)\<close>
  enumerates the successors of \<open>u\<close>.
\<close>

record DiGraph =
  nodes :: "(string \<times> FunctionDef option) list"
  edges :: "(string \<times> string) list"

definition empty_graph :: DiGraph where
  "empty_graph = \<lparr>nodes = [], edges = []\<rparr>"

definition has_node :: "DiGraph \<Rightarrow> string \<Rightarrow> bool" where
  "has_node g n = has_key (nodes g) n"

text \<open>\<^verbatim>\<open>G.add_node(n, data=d)\<close>: creates the node or updates its attribute.\<close>

definition add_node :: "DiGraph \<Rightarrow> string \<Rightarrow> FunctionDef \<Rightarrow> DiGraph" where
  "add_node g n d = g\<lparr>nodes := AList.update n (Some d) (nodes g)\<rparr>"

text \<open>
  \<^verbatim>\<open>G.add_edge(u, v)\<close>: networkx first creates either endpoint that is not a node yet
  (without attributes); adding an existing edge changes nothing.
\<close>

definition ensure_node :: "(string \<times> FunctionDef option) list \<Rightarrow> string
    \<Rightarrow> (string \<times> FunctionDef option) list" where
  "ensure_node ns n = (if has_key ns n then ns else ns @ [(n, None)])"

definition add_edge :: "DiGraph \<Rightarrow> string \<Rightarrow> string \<Rightarrow> DiGraph" where
  "add_edge g u v =
     \<lparr>nodes = ensure_node (ensure_node (nodes g) u) v,
      edges = (if (u, v) \<in> set (edges g) then edges g else edges g @ [(u, v)])\<rparr>"

definition neighbors :: "DiGraph \<Rightarrow> string \<Rightarrow> string list" where
  "neighbors g u = map snd (filter (\<lambda>e. fst e = u) (edges g))"

text \<open>
  \<^verbatim>\<open>G.nodes[n].get("data")\<close>. Every node that a traversal reaches is a node of the
  graph (networkx keeps that invariant), so the lookup of a missing node, which can
  not happen there, is read as "no data".
\<close>

definition node_data :: "DiGraph \<Rightarrow> string \<Rightarrow> FunctionDef option" where
  "node_data g n = (case map_of (nodes g) n of None \<Rightarrow> None | Some d \<Rightarrow> d)"

subsection \<open>Breadth-first search with a depth limit\<close>

text \<open>
  \<^verbatim>\<open>nx.bfs_edges(G, source, depth_limit)\<close> of networkx 3.x works level by level:

  \<^verbatim>\<open>
    seen = {source}; n = len(G); depth = 0
    next_parents_children = [(source, neighbors(source))]
    while next_parents_children and depth < depth_limit:
        this_parents_children = next_parents_children
        next_parents_children = []
        for parent, children in this_parents_children:
            for child in children:
                if child not in seen:
                    seen.add(child)
                    next_parents_children.append((child, neighbors(child)))
                    yield parent, child
            if len(seen) == n:
                return
        depth += 1
  \<close>

  The model keeps \<open>seen\<close> as the list of nodes in the order they were added: the
  source, then the target of every yielded edge. That is also the order in which
  \<^verbatim>\<open>get_slice\<close> inserts them into its \<^verbatim>\<open>reachable\<close> set.
\<close>

fun visit_children :: "string list \<Rightarrow> string list \<times> string list \<Rightarrow> string list \<times> string list" where
  "visit_children [] (seen, nxt) = (seen, nxt)"
| "visit_children (child # cs) (seen, nxt) =
     (if child \<notin> set seen then visit_children cs (seen @ [child], nxt @ [child])
      else visit_children cs (seen, nxt))"

fun visit_parents :: "DiGraph \<Rightarrow> string list \<Rightarrow> string list \<times> string list
    \<Rightarrow> bool \<times> string list \<times> string list" where
  "visit_parents g [] (seen, nxt) = (False, seen, nxt)"
| "visit_parents g (parent # ps) (seen, nxt) =
     (case visit_children (neighbors g parent) (seen, nxt) of (seen', nxt') \<Rightarrow>
        if length seen' = length (nodes g) then (True, seen', nxt')
        else visit_parents g ps (seen', nxt'))"

text \<open>
  The \<^verbatim>\<open>while\<close> loop runs while \<open>depth < depth_limit\<close> and \<open>depth\<close> grows by one
  per round, so the number of rounds left, \<open>depth_limit - depth\<close>, is the recursion
  argument.
\<close>

fun bfs_levels :: "DiGraph \<Rightarrow> nat \<Rightarrow> string list \<Rightarrow> string list \<Rightarrow> string list" where
  "bfs_levels g 0 frontier seen = seen"
| "bfs_levels g (Suc k) frontier seen =
     (if frontier = [] then seen
      else (case visit_parents g frontier (seen, []) of
              (True, seen', nxt) \<Rightarrow> seen'
            | (False, seen', nxt) \<Rightarrow> bfs_levels g k nxt seen'))"

definition bfs_reached :: "DiGraph \<Rightarrow> string \<Rightarrow> int \<Rightarrow> string list" where
  "bfs_reached g source depth_limit = bfs_levels g (nat depth_limit) [source] [source]"

section \<open>The runtime around the graph builder\<close>

text \<open>
  Three things are outside the program and enter as parameters:
  \<^item> \<open>set_order\<close>: the order in which Python iterates over a \<^verbatim>\<open>set\<close> of strings,
    given the order in which its elements were inserted (it depends on the hash
    seed of the process);
  \<^item> \<open>resolve_path current_file import_path\<close>: the string of
    \<^verbatim>\<open>(Path(current_file).parent / import_path).resolve()\<close>, an absolute normalised
    path that depends on the working directory and the symbolic links;
  \<^item> \<open>is_file\<close>: \<^verbatim>\<open>Path.is_file\<close> on the string of a path.
\<close>

record Runtime =
  set_order :: "string list \<Rightarrow> string list"
  resolve_path :: "string \<Rightarrow> string \<Rightarrow> string"
  is_file :: "string \<Rightarrow> bool"

text \<open>A set iteration enumerates every element once.\<close>

definition set_order_ok :: "(string list \<Rightarrow> string list) \<Rightarrow> bool" where
  "set_order_ok f = (\<forall>xs. distinct xs \<longrightarrow> mset (f xs) = mset xs)"

subsection \<open>pathlib on the string of an absolute normalised POSIX path\<close>

text \<open>\<^verbatim>\<open>PurePath.name\<close>: the last component, empty for the root.\<close>

definition path_name :: "string \<Rightarrow> string" where
  "path_name p = rev (takeWhile (\<lambda>c. c \<noteq> CHR ''/'') (rev p))"

text \<open>
  \<^verbatim>\<open>PurePath.suffix\<close>: with \<open>i = name.rfind('.')\<close>, the suffix is \<open>name[i:]\<close> when
  \<open>0 < i < len(name) - 1\<close> and empty otherwise.
\<close>

definition path_suffix :: "string \<Rightarrow> string" where
  "path_suffix p =
     (let name = path_name p;
          after = rev (takeWhile (\<lambda>c. c \<noteq> CHR ''.'') (rev name))
      in if CHR ''.'' \<in> set name \<and> 0 < length name - length after - 1 \<and> after \<noteq> []
         then CHR ''.'' # after else [])"

text \<open>
  \<^verbatim>\<open>PurePath.with_suffix(suffix)\<close> for a valid suffix: raises \<^verbatim>\<open>ValueError\<close> when the
  name is empty, appends the suffix when the path has none and replaces the old
  suffix otherwise.
\<close>

definition with_suffix :: "string \<Rightarrow> string \<Rightarrow> error + string" where
  "with_suffix p new_suffix =
     (if path_name p = [] then Inl ValueError
      else if path_suffix p = [] then Inr (p @ new_suffix)
      else Inr (take (length p - length (path_suffix p)) p @ new_suffix))"

text \<open>\<^verbatim>\<open>path / child\<close> for a relative child.\<close>

definition joinpath :: "string \<Rightarrow> string \<Rightarrow> string" where
  "joinpath p child = (if p = ''/'' then p @ child else p @ ''/'' @ child)"

section \<open>The dependency graph (logicgate/graph.py)\<close>

record DependencyGraph =
  graph :: DiGraph
  file_functions :: "(string \<times> FunctionDef list) list"
  file_calls :: "(string \<times> FunctionCall list) list"
  file_imports :: "(string \<times> ImportInfo list) list"
  symbol_table :: "(string \<times> FunctionDef) list"

text \<open>\<^verbatim>\<open>DependencyGraph.__init__\<close>\<close>

definition init_state :: DependencyGraph where
  "init_state = \<lparr>graph = empty_graph, file_functions = [], file_calls = [],
                 file_imports = [], symbol_table = []\<rparr>"

text \<open>The node identifier \<^verbatim>\<open>f"{path}:{name}"\<close>.\<close>

definition node_id :: "string \<Rightarrow> string \<Rightarrow> string" where
  "node_id path name = path @ '':'' @ name"

subsection \<open>\<^verbatim>\<open>_find_enclosing_function\<close>\<close>

fun enclosing_loop :: "int \<Rightarrow> FunctionDef list \<Rightarrow> FunctionDef option \<Rightarrow> FunctionDef option" where
  "enclosing_loop line [] best = best"
| "enclosing_loop line (fdef # rest) best =
     (if fd_start_line fdef \<le> line \<and> line \<le> fd_end_line fdef then
        (case best of
           None \<Rightarrow> enclosing_loop line rest (Some fdef)
         | Some b \<Rightarrow>
             if fd_end_line fdef - fd_start_line fdef < fd_end_line b - fd_start_line b
             then enclosing_loop line rest (Some fdef)
             else enclosing_loop line rest best)
      else enclosing_loop line rest best)"

definition find_enclosing_function :: "DependencyGraph \<Rightarrow> string \<Rightarrow> int \<Rightarrow> string option" where
  "find_enclosing_function s file_path line =
     (case enclosing_loop line (dict_get (file_functions s) file_path []) None of
        None \<Rightarrow> None
      | Some best \<Rightarrow> Some (fd_name best))"

subsection \<open>\<^verbatim>\<open>_resolve_import_path\<close> and \<^verbatim>\<open>_resolve_call_via_imports\<close>\<close>

definition starts_with_dot :: "string \<Rightarrow> bool" where
  "starts_with_dot p = (case p of [] \<Rightarrow> False | c # cs \<Rightarrow> c = CHR ''.'')"

text \<open>
  The list \<open>probes\<close> is built before the first probe is tested, so a
  \<^verbatim>\<open>with_suffix\<close> that raises does so whatever files exist.
\<close>

definition resolve_import_path :: "Runtime \<Rightarrow> string \<Rightarrow> string \<Rightarrow> error + string option" where
  "resolve_import_path rt current_file import_path =
     (if \<not> starts_with_dot import_path then Inr None
      else
        let candidate = resolve_path rt current_file import_path in
        (case with_suffix candidate ''.js'' of
           Inl e \<Rightarrow> Inl e
         | Inr p_js \<Rightarrow>
             (case with_suffix candidate ''.ts'' of
                Inl e \<Rightarrow> Inl e
              | Inr p_ts \<Rightarrow>
                  let probes = [candidate, p_js, p_ts,
                                joinpath candidate ''index.js'',
                                joinpath candidate ''index.ts'']
                  in Inr (find (is_file rt) probes))))"

fun resolve_imports_loop :: "Runtime \<Rightarrow> DependencyGraph \<Rightarrow> string \<Rightarrow> string
    \<Rightarrow> ImportInfo list \<Rightarrow> error + string option" where
  "resolve_imports_loop rt s file_path call_name [] = Inr None"
| "resolve_imports_loop rt s file_path call_name (imp # rest) =
     (if imp_name imp = call_name then
        (case resolve_import_path rt file_path (imp_path imp) of
           Inl e \<Rightarrow> Inl e
         | Inr None \<Rightarrow> resolve_imports_loop rt s file_path call_name rest
         | Inr (Some resolved_path) \<Rightarrow>
             let candidate_id = node_id resolved_path call_name in
             if has_key (symbol_table s) candidate_id then Inr (Some candidate_id)
             else resolve_imports_loop rt s file_path call_name rest)
      else resolve_imports_loop rt s file_path call_name rest)"

definition resolve_call_via_imports :: "Runtime \<Rightarrow> DependencyGraph \<Rightarrow> string \<Rightarrow> string
    \<Rightarrow> error + string option" where
  "resolve_call_via_imports rt s file_path call_name =
     resolve_imports_loop rt s file_path call_name (dict_get (file_imports s) file_path [])"

subsection \<open>\<^verbatim>\<open>_resolve_calls\<close>\<close>

text \<open>
  The loop over the call sites of one file. \<open>local_names\<close> are the keys of the
  dictionary \<^verbatim>\<open>local_defs\<close>. \<^verbatim>\<open>if not caller_name\<close> also skips an empty name.
\<close>

fun resolve_calls_loop :: "Runtime \<Rightarrow> string \<Rightarrow> string list \<Rightarrow> FunctionCall list
    \<Rightarrow> DependencyGraph \<Rightarrow> error + DependencyGraph" where
  "resolve_calls_loop rt file_path local_names [] s = Inr s"
| "resolve_calls_loop rt file_path local_names (call # rest) s =
     (case find_enclosing_function s file_path (fc_line call) of
        None \<Rightarrow> resolve_calls_loop rt file_path local_names rest s
      | Some caller_name \<Rightarrow>
          if caller_name = [] then resolve_calls_loop rt file_path local_names rest s
          else
            let caller_id = node_id file_path caller_name in
            if fc_name call \<in> set local_names then
              let callee_id = node_id file_path (fc_name call) in
              if has_node (graph s) caller_id \<and> has_node (graph s) callee_id
              then resolve_calls_loop rt file_path local_names rest
                     (s\<lparr>graph := add_edge (graph s) caller_id callee_id\<rparr>)
              else resolve_calls_loop rt file_path local_names rest s
            else
              (case resolve_call_via_imports rt s file_path (fc_name call) of
                 Inl e \<Rightarrow> Inl e
               | Inr None \<Rightarrow> resolve_calls_loop rt file_path local_names rest s
               | Inr (Some resolved) \<Rightarrow>
                   if resolved \<noteq> [] \<and> has_node (graph s) caller_id
                   then resolve_calls_loop rt file_path local_names rest
                          (s\<lparr>graph := add_edge (graph s) caller_id resolved\<rparr>)
                   else resolve_calls_loop rt file_path local_names rest s))"

definition resolve_calls :: "Runtime \<Rightarrow> string \<Rightarrow> FunctionCall list \<Rightarrow> DependencyGraph
    \<Rightarrow> error + DependencyGraph" where
  "resolve_calls rt file_path calls s =
     resolve_calls_loop rt file_path
       (map fd_name (dict_get (file_functions s) file_path [])) calls s"

subsection \<open>\<^verbatim>\<open>build_graph\<close>\<close>

text \<open>
  What \<^verbatim>\<open>_walk_sources\<close> and the parser deliver for one source file: its path and
  the results of \<^verbatim>\<open>find_function_defs\<close>, \<^verbatim>\<open>find_function_calls\<close> and
  \<^verbatim>\<open>find_imports\<close>. \<^verbatim>\<open>build_graph\<close> receives the list of these in walking order.
\<close>

record SourceFile =
  sf_path :: string
  sf_defs :: "FunctionDef list"
  sf_calls :: "FunctionCall list"
  sf_imports :: "ImportInfo list"

fun register_defs :: "string \<Rightarrow> FunctionDef list \<Rightarrow> DependencyGraph \<Rightarrow> DependencyGraph" where
  "register_defs str_path [] s = s"
| "register_defs str_path (fdef # rest) s =
     register_defs str_path rest
       (s\<lparr>symbol_table := AList.update (node_id str_path (fd_name fdef)) fdef (symbol_table s),
          graph := add_node (graph s) (node_id str_path (fd_name fdef)) fdef\<rparr>)"

definition register_file :: "SourceFile \<Rightarrow> DependencyGraph \<Rightarrow> DependencyGraph" where
  "register_file f s =
     register_defs (sf_path f) (sf_defs f)
       (s\<lparr>file_functions := AList.update (sf_path f) (sf_defs f) (file_functions s),
          file_calls := AList.update (sf_path f) (sf_calls f) (file_calls s),
          file_imports := AList.update (sf_path f) (sf_imports f) (file_imports s)\<rparr>)"

fun phase1 :: "SourceFile list \<Rightarrow> DependencyGraph \<Rightarrow> DependencyGraph" where
  "phase1 [] s = s"
| "phase1 (f # fs) s = phase1 fs (register_file f s)"

fun phase2 :: "Runtime \<Rightarrow> (string \<times> FunctionCall list) list \<Rightarrow> DependencyGraph
    \<Rightarrow> error + DependencyGraph" where
  "phase2 rt [] s = Inr s"
| "phase2 rt ((file_path, calls) # rest) s =
     (case resolve_calls rt file_path calls s of
        Inl e \<Rightarrow> Inl e
      | Inr s' \<Rightarrow> phase2 rt rest s')"

definition build_graph :: "Runtime \<Rightarrow> SourceFile list \<Rightarrow> DependencyGraph
    \<Rightarrow> error + DependencyGraph" where
  "build_graph rt files s =
     (let s1 = phase1 files s in phase2 rt (file_calls s1) s1)"

subsection \<open>\<^verbatim>\<open>get_slice\<close>\<close>

text \<open>
  An omitted \<^verbatim>\<open>depth\<close> argument is \<open>None\<close>; the signature's default is 5. The
  result follows the iteration order of the set \<^verbatim>\<open>reachable\<close>.
\<close>

definition default_depth :: "int option \<Rightarrow> int" where
  "default_depth depth = (case depth of None \<Rightarrow> 5 | Some d \<Rightarrow> d)"

definition get_slice :: "Runtime \<Rightarrow> DependencyGraph \<Rightarrow> string \<Rightarrow> int option
    \<Rightarrow> FunctionDef list" where
  "get_slice rt s nid depth =
     (if \<not> has_node (graph s) nid then []
      else
        let reachable = bfs_reached (graph s) nid (default_depth depth)
        in List.map_filter (node_data (graph s)) (set_order rt reachable))"

subsection \<open>\<^verbatim>\<open>get_route_context\<close>\<close>

definition calls_in_handler :: "DependencyGraph \<Rightarrow> RouteInfo \<Rightarrow> FunctionCall list" where
  "calls_in_handler s route =
     filter (\<lambda>call. rt_handler_start_line route \<le> fc_line call
                    \<and> fc_line call \<le> rt_handler_end_line route)
            (dict_get (file_calls s) (rt_file_path route) [])"

text \<open>The inner loop \<^verbatim>\<open>for fdef in self.get_slice(...)\<close> over one slice.\<close>

fun add_slice :: "FunctionDef list \<Rightarrow> string set \<times> FunctionDef list
    \<Rightarrow> string set \<times> FunctionDef list" where
  "add_slice [] acc = acc"
| "add_slice (fdef # rest) (seen_node_ids, all_defs) =
     (let nid = node_id (fd_file_path fdef) (fd_name fdef) in
      if nid \<notin> seen_node_ids
      then add_slice rest (insert nid seen_node_ids, all_defs @ [fdef])
      else add_slice rest (seen_node_ids, all_defs))"

text \<open>The loop \<^verbatim>\<open>for call in calls_in_handler\<close>.\<close>

fun collect_defs :: "Runtime \<Rightarrow> DependencyGraph \<Rightarrow> string \<Rightarrow> int \<Rightarrow> FunctionCall list
    \<Rightarrow> string set \<times> FunctionDef list \<Rightarrow> error + (string set \<times> FunctionDef list)" where
  "collect_defs rt s file_path depth [] acc = Inr acc"
| "collect_defs rt s file_path depth (call # rest) (seen_node_ids, all_defs) =
     (let candidate_id = node_id file_path (fc_name call) in
      if has_key (symbol_table s) candidate_id then
        (if candidate_id \<notin> seen_node_ids
         then collect_defs rt s file_path depth rest
                (add_slice (get_slice rt s candidate_id (Some depth)) (seen_node_ids, all_defs))
         else collect_defs rt s file_path depth rest (seen_node_ids, all_defs))
      else
        (case resolve_call_via_imports rt s file_path (fc_name call) of
           Inl e \<Rightarrow> Inl e
         | Inr None \<Rightarrow> collect_defs rt s file_path depth rest (seen_node_ids, all_defs)
         | Inr (Some resolved) \<Rightarrow>
             if resolved \<noteq> [] \<and> resolved \<notin> seen_node_ids
             then collect_defs rt s file_path depth rest
                    (add_slice (get_slice rt s resolved (Some depth)) (seen_node_ids, all_defs))
             else collect_defs rt s file_path depth rest (seen_node_ids, all_defs)))"

text \<open>The list \<^verbatim>\<open>all_defs\<close> that the loop leaves behind.\<close>

definition route_defs :: "Runtime \<Rightarrow> DependencyGraph \<Rightarrow> RouteInfo \<Rightarrow> int
    \<Rightarrow> error + FunctionDef list" where
  "route_defs rt s route depth =
     (case collect_defs rt s (rt_file_path route) depth (calls_in_handler s route) ({}, []) of
        Inl e \<Rightarrow> Inl e
      | Inr (seen_node_ids, all_defs) \<Rightarrow> Inr all_defs)"

text \<open>Python's \<^verbatim>\<open>str\<close> of an integer, as the f-strings render the line numbers.\<close>

fun str_nat :: "nat \<Rightarrow> string" where
  "str_nat n = (if n < 10 then [char_of (48 + n)]
                else str_nat (n div 10) @ [char_of (48 + n mod 10)])"

definition str_int :: "int \<Rightarrow> string" where
  "str_int i = (if i < 0 then CHR ''-'' # str_nat (nat (- i)) else str_nat (nat i))"

text \<open>\<^verbatim>\<open>sep.join(parts)\<close>\<close>

fun join :: "string \<Rightarrow> string list \<Rightarrow> string" where
  "join sep [] = []"
| "join sep [x] = x"
| "join sep (x # y # ys) = x @ sep @ join sep (y # ys)"

definition header :: "string \<Rightarrow> int \<Rightarrow> int \<Rightarrow> string" where
  "header path start_line end_line =
     ''// File: '' @ path @ '', Lines '' @ str_int start_line @ ''-'' @ str_int end_line
       @ [CHR 0x0A]"

definition fallback_context :: "RouteInfo \<Rightarrow> string" where
  "fallback_context route =
     header (rt_file_path route) (rt_handler_start_line route) (rt_handler_end_line route)
       @ rt_handler_source route @ [CHR 0x0A]"

definition render_def :: "FunctionDef \<Rightarrow> string" where
  "render_def fdef =
     header (fd_file_path fdef) (fd_start_line fdef) (fd_end_line fdef) @ fd_source fdef"

definition get_route_context :: "Runtime \<Rightarrow> DependencyGraph \<Rightarrow> RouteInfo \<Rightarrow> int option
    \<Rightarrow> error + string" where
  "get_route_context rt s route depth =
     (case route_defs rt s route (default_depth depth) of
        Inl e \<Rightarrow> Inl e
      | Inr all_defs \<Rightarrow>
          if all_defs = [] then Inr (fallback_context route)
          else Inr (join [CHR 0x0A, CHR 0x0A] (map render_def all_defs) @ [CHR 0x0A]))"

section \<open>Vocabulary of the properties\<close>

text \<open>A definition encloses a line when its inclusive line range contains it.\<close>

definition encloses :: "FunctionDef \<Rightarrow> int \<Rightarrow> bool" where
  "encloses d line = (fd_start_line d \<le> line \<and> line \<le> fd_end_line d)"

definition span :: "FunctionDef \<Rightarrow> int" where
  "span d = fd_end_line d - fd_start_line d"

definition enclosing_candidates :: "DependencyGraph \<Rightarrow> string \<Rightarrow> int \<Rightarrow> FunctionDef list" where
  "enclosing_candidates s file_path line =
     filter (\<lambda>d. encloses d line) (dict_get (file_functions s) file_path [])"

text \<open>
  The state of an instance is consistent when the nodes of the graph are exactly
  the keys of the symbol table, each carrying the definition that the symbol
  table holds for it, and both endpoints of every edge are keys of the symbol
  table.
\<close>

definition consistent :: "DependencyGraph \<Rightarrow> bool" where
  "consistent s =
     (list_all (\<lambda>n. map_of (nodes (graph s)) n = map_option Some (map_of (symbol_table s) n))
         (map fst (nodes (graph s)) @ map fst (symbol_table s))
      \<and> list_all (\<lambda>e. has_key (symbol_table s) (fst e) \<and> has_key (symbol_table s) (snd e))
         (edges (graph s)))"

section \<open>Example inputs\<close>

text \<open>
  \<^verbatim>\<open>Path.resolve\<close> on a file system without symbolic links, for an absolute
  \<open>current_file\<close>: the components of the parent directory followed by those of the
  import path, with \<open>.\<close> dropped and \<open>..\<close> stepping up.
\<close>

fun split_on :: "char \<Rightarrow> string \<Rightarrow> string list" where
  "split_on c [] = [[]]"
| "split_on c (x # xs) =
     (if x = c then [] # split_on c xs
      else (case split_on c xs of [] \<Rightarrow> [[x]] | w # ws \<Rightarrow> (x # w) # ws))"

fun normalise :: "string list \<Rightarrow> string list \<Rightarrow> string list" where
  "normalise stack [] = rev stack"
| "normalise stack (c # cs) =
     (if c = [] \<or> c = ''.'' then normalise stack cs
      else if c = ''..'' then normalise (tl stack) cs
      else normalise (c # stack) cs)"

definition lexical_resolve :: "string \<Rightarrow> string \<Rightarrow> string" where
  "lexical_resolve current_file import_path =
     ''/'' @ join ''/'' (normalise []
        (butlast (split_on CHR ''/'' current_file) @ split_on CHR ''/'' import_path))"

definition mk_def :: "string \<Rightarrow> string \<Rightarrow> int \<Rightarrow> int \<Rightarrow> FunctionDef" where
  "mk_def path name start_line end_line =
     \<lparr>fd_name = name, fd_file_path = path, fd_start_line = start_line,
      fd_end_line = end_line, fd_source = ''function '' @ name @ ''() {}''\<rparr>"

definition mk_call :: "string \<Rightarrow> string \<Rightarrow> int \<Rightarrow> FunctionCall" where
  "mk_call path name line =
     \<lparr>fc_name = name, fc_file_path = path, fc_line = line, fc_object_name = None\<rparr>"

definition mk_import :: "string \<Rightarrow> string \<Rightarrow> string \<Rightarrow> int \<Rightarrow> ImportInfo" where
  "mk_import path name spec line =
     \<lparr>imp_name = name, imp_path = spec, imp_file_path = path, imp_line = line\<rparr>"

text \<open>
  A project under \<^verbatim>\<open>/app\<close>: \<^verbatim>\<open>lib.js\<close> defines \<open>outer\<close> (lines 1 to 12), which
  contains \<open>inner\<close> (lines 3 to 5) and calls \<open>helper\<close> on line 8, and \<open>helper\<close>
  (lines 14 to 16), which calls \<open>leaf\<close> (lines 18 to 20) on line 15.
  \<^verbatim>\<open>server.js\<close> imports \<open>outer\<close> and \<open>helper\<close> from \<^verbatim>\<open>./lib\<close> and calls both
  in a handler on lines 3 to 6.
\<close>

definition ex_lib :: SourceFile where
  "ex_lib =
     \<lparr>sf_path = ''/app/lib.js'',
      sf_defs = [mk_def ''/app/lib.js'' ''outer'' 1 12, mk_def ''/app/lib.js'' ''inner'' 3 5,
                 mk_def ''/app/lib.js'' ''helper'' 14 16, mk_def ''/app/lib.js'' ''leaf'' 18 20],
      sf_calls = [mk_call ''/app/lib.js'' ''helper'' 8, mk_call ''/app/lib.js'' ''leaf'' 15],
      sf_imports = []\<rparr>"

definition ex_server :: SourceFile where
  "ex_server =
     \<lparr>sf_path = ''/app/server.js'',
      sf_defs = [],
      sf_calls = [mk_call ''/app/server.js'' ''outer'' 4, mk_call ''/app/server.js'' ''helper'' 5],
      sf_imports = [mk_import ''/app/server.js'' ''outer'' ''./lib'' 1,
                    mk_import ''/app/server.js'' ''helper'' ''./lib'' 2]\<rparr>"

definition ex_rt :: Runtime where
  "ex_rt = \<lparr>set_order = (\<lambda>xs. xs), resolve_path = lexical_resolve,
            is_file = (\<lambda>p. p \<in> set [''/app/lib.js'', ''/app/server.js''])\<rparr>"

text \<open>The state that \<^verbatim>\<open>build_graph\<close> leaves on a fresh instance for this project.\<close>

definition ex_state :: DependencyGraph where
  "ex_state =
     \<lparr>graph =
        \<lparr>nodes = [(''/app/lib.js:outer'', Some (mk_def ''/app/lib.js'' ''outer'' 1 12)),
                  (''/app/lib.js:inner'', Some (mk_def ''/app/lib.js'' ''inner'' 3 5)),
                  (''/app/lib.js:helper'', Some (mk_def ''/app/lib.js'' ''helper'' 14 16)),
                  (''/app/lib.js:leaf'', Some (mk_def ''/app/lib.js'' ''leaf'' 18 20))],
         edges = [(''/app/lib.js:outer'', ''/app/lib.js:helper''),
                  (''/app/lib.js:helper'', ''/app/lib.js:leaf'')]\<rparr>,
      file_functions = [(''/app/lib.js'', sf_defs ex_lib), (''/app/server.js'', [])],
      file_calls = [(''/app/lib.js'', sf_calls ex_lib), (''/app/server.js'', sf_calls ex_server)],
      file_imports = [(''/app/lib.js'', []), (''/app/server.js'', sf_imports ex_server)],
      symbol_table = [(''/app/lib.js:outer'', mk_def ''/app/lib.js'' ''outer'' 1 12),
                      (''/app/lib.js:inner'', mk_def ''/app/lib.js'' ''inner'' 3 5),
                      (''/app/lib.js:helper'', mk_def ''/app/lib.js'' ''helper'' 14 16),
                      (''/app/lib.js:leaf'', mk_def ''/app/lib.js'' ''leaf'' 18 20)]\<rparr>"


text \<open>
  Two mutually recursive functions in \<^verbatim>\<open>/app/cyc.js\<close>: \<open>ping\<close> (lines 1 to 3)
  calls \<open>pong\<close> on line 2 and \<open>pong\<close> (lines 5 to 7) calls \<open>ping\<close> on line 6.
\<close>

definition ex_cyc :: SourceFile where
  "ex_cyc =
     \<lparr>sf_path = ''/app/cyc.js'',
      sf_defs = [mk_def ''/app/cyc.js'' ''ping'' 1 3, mk_def ''/app/cyc.js'' ''pong'' 5 7],
      sf_calls = [mk_call ''/app/cyc.js'' ''pong'' 2, mk_call ''/app/cyc.js'' ''ping'' 6],
      sf_imports = []\<rparr>"

definition ex_cyc_state :: DependencyGraph where
  "ex_cyc_state =
     \<lparr>graph =
        \<lparr>nodes = [(''/app/cyc.js:ping'', Some (mk_def ''/app/cyc.js'' ''ping'' 1 3)),
                  (''/app/cyc.js:pong'', Some (mk_def ''/app/cyc.js'' ''pong'' 5 7))],
         edges = [(''/app/cyc.js:ping'', ''/app/cyc.js:pong''),
                  (''/app/cyc.js:pong'', ''/app/cyc.js:ping'')]\<rparr>,
      file_functions = [(''/app/cyc.js'', sf_defs ex_cyc)],
      file_calls = [(''/app/cyc.js'', sf_calls ex_cyc)],
      file_imports = [(''/app/cyc.js'', [])],
      symbol_table = [(''/app/cyc.js:ping'', mk_def ''/app/cyc.js'' ''ping'' 1 3),
                      (''/app/cyc.js:pong'', mk_def ''/app/cyc.js'' ''pong'' 5 7)]\<rparr>"

text \<open>
  A project whose module name contains a dot: \<^verbatim>\<open>/app/user.service.js\<close> defines
  \<open>getUser\<close> (lines 1 to 3), and \<^verbatim>\<open>/app/routes.js\<close> imports it with
  \<^verbatim>\<open>require('./user.service')\<close> and calls it on line 3 inside \<open>handler\<close>
  (lines 2 to 5).
\<close>

definition ex_svc_files :: "SourceFile list" where
  "ex_svc_files =
     [\<lparr>sf_path = ''/app/routes.js'',
       sf_defs = [mk_def ''/app/routes.js'' ''handler'' 2 5],
       sf_calls = [mk_call ''/app/routes.js'' ''getUser'' 3],
       sf_imports = [mk_import ''/app/routes.js'' ''getUser'' ''./user.service'' 1]\<rparr>,
      \<lparr>sf_path = ''/app/user.service.js'',
       sf_defs = [mk_def ''/app/user.service.js'' ''getUser'' 1 3],
       sf_calls = [],
       sf_imports = []\<rparr>]"

definition ex_svc_rt :: Runtime where
  "ex_svc_rt = \<lparr>set_order = (\<lambda>xs. xs), resolve_path = lexical_resolve,
                is_file = (\<lambda>p. p \<in> set [''/app/routes.js'', ''/app/user.service.js''])\<rparr>"

definition ex_svc_state :: DependencyGraph where
  "ex_svc_state =
     \<lparr>graph =
        \<lparr>nodes = [(''/app/routes.js:handler'', Some (mk_def ''/app/routes.js'' ''handler'' 2 5)),
                  (''/app/user.service.js:getUser'',
                   Some (mk_def ''/app/user.service.js'' ''getUser'' 1 3))],
         edges = []\<rparr>,
      file_functions = [(''/app/routes.js'', [mk_def ''/app/routes.js'' ''handler'' 2 5]),
                        (''/app/user.service.js'', [mk_def ''/app/user.service.js'' ''getUser'' 1 3])],
      file_calls = [(''/app/routes.js'', [mk_call ''/app/routes.js'' ''getUser'' 3]),
                    (''/app/user.service.js'', [])],
      file_imports = [(''/app/routes.js'', [mk_import ''/app/routes.js'' ''getUser'' ''./user.service'' 1]),
                      (''/app/user.service.js'', [])],
      symbol_table = [(''/app/routes.js:handler'', mk_def ''/app/routes.js'' ''handler'' 2 5),
                      (''/app/user.service.js:getUser'',
                       mk_def ''/app/user.service.js'' ''getUser'' 1 3)]\<rparr>"

text \<open>
  A file directly below a top-level directory that imports its parent directory:
  \<^verbatim>\<open>/srv/app.js\<close> holds \<^verbatim>\<open>const g = require('..')\<close> on line 1 and calls \<open>g\<close> on
  line 3. In \<open>ex_root_fn\<close> the call lies inside the function \<open>f\<close> (lines 2 to 4);
  in \<open>ex_root_top\<close> the file defines no named function and the call lies in a route
  handler on lines 2 to 4.
\<close>

definition ex_root_fn :: SourceFile where
  "ex_root_fn =
     \<lparr>sf_path = ''/srv/app.js'',
      sf_defs = [mk_def ''/srv/app.js'' ''f'' 2 4],
      sf_calls = [mk_call ''/srv/app.js'' ''g'' 3],
      sf_imports = [mk_import ''/srv/app.js'' ''g'' ''..'' 1]\<rparr>"

definition ex_root_top :: SourceFile where
  "ex_root_top =
     \<lparr>sf_path = ''/srv/app.js'',
      sf_defs = [],
      sf_calls = [mk_call ''/srv/app.js'' ''g'' 3],
      sf_imports = [mk_import ''/srv/app.js'' ''g'' ''..'' 1]\<rparr>"

definition ex_root_rt :: Runtime where
  "ex_root_rt = \<lparr>set_order = (\<lambda>xs. xs), resolve_path = lexical_resolve,
                 is_file = (\<lambda>p. p \<in> set [''/srv/app.js''])\<rparr>"

definition ex_root_state :: DependencyGraph where
  "ex_root_state =
     \<lparr>graph = \<lparr>nodes = [], edges = []\<rparr>,
      file_functions = [(''/srv/app.js'', [])],
      file_calls = [(''/srv/app.js'', [mk_call ''/srv/app.js'' ''g'' 3])],
      file_imports = [(''/srv/app.js'', [mk_import ''/srv/app.js'' ''g'' ''..'' 1])],
      symbol_table = []\<rparr>"

definition ex_root_route :: RouteInfo where
  "ex_root_route =
     \<lparr>rt_file_path = ''/srv/app.js'', rt_http_method = ''GET'',
      rt_route_pattern = ''/'', rt_handler_start_line = 2, rt_handler_end_line = 4,
      rt_handler_source = ''(req, res) => { g(); }'', rt_middleware = []\<rparr>"

text \<open>
  What the body of the loop in \<^verbatim>\<open>_resolve_calls\<close> does with one call site: it
  raises, adds nothing, or adds one edge.
\<close>

definition call_edge :: "Runtime \<Rightarrow> DependencyGraph \<Rightarrow> string \<Rightarrow> FunctionCall
    \<Rightarrow> error + (string \<times> string) option" where
  "call_edge rt s file_path call =
     (case find_enclosing_function s file_path (fc_line call) of
        None \<Rightarrow> Inr None
      | Some caller_name \<Rightarrow>
          if caller_name = [] then Inr None
          else if fc_name call \<in> set (map fd_name (dict_get (file_functions s) file_path [])) then
            (if has_node (graph s) (node_id file_path caller_name)
                \<and> has_node (graph s) (node_id file_path (fc_name call))
             then Inr (Some (node_id file_path caller_name, node_id file_path (fc_name call)))
             else Inr None)
          else
            (case resolve_call_via_imports rt s file_path (fc_name call) of
               Inl e \<Rightarrow> Inl e
             | Inr None \<Rightarrow> Inr None
             | Inr (Some resolved) \<Rightarrow>
                 if resolved \<noteq> [] \<and> has_node (graph s) (node_id file_path caller_name)
                 then Inr (Some (node_id file_path caller_name, resolved))
                 else Inr None))"

text \<open>Carrying out a sequence of such outcomes, up to the first that raises.\<close>

fun apply_results :: "(error + (string \<times> string) option) list \<Rightarrow> DependencyGraph
    \<Rightarrow> error + DependencyGraph" where
  "apply_results [] s = Inr s"
| "apply_results (Inl e # rs) s = Inl e"
| "apply_results (Inr None # rs) s = apply_results rs s"
| "apply_results (Inr (Some (u, v)) # rs) s =
     apply_results rs (s\<lparr>graph := add_edge (graph s) u v\<rparr>)"

text \<open>The outcomes of all call sites of phase 2, in processing order.\<close>

definition call_results :: "Runtime \<Rightarrow> DependencyGraph \<Rightarrow> (string \<times> FunctionCall list) list
    \<Rightarrow> (error + (string \<times> string) option) list" where
  "call_results rt s entries =
     concat (map (\<lambda>(file_path, calls). map (call_edge rt s file_path) calls) entries)"

text \<open>The node set and the edge set of the graph of an instance.\<close>

definition node_set :: "DependencyGraph \<Rightarrow> string set" where
  "node_set s = fst ` set (nodes (graph s))"

definition edge_set :: "DependencyGraph \<Rightarrow> (string \<times> string) set" where
  "edge_set s = set (edges (graph s))"

text \<open>The node identifiers that phase 1 registers for a list of source files.\<close>

definition registered_ids :: "SourceFile list \<Rightarrow> string set" where
  "registered_ids files =
     (\<Union>f\<in>set files. (\<lambda>d. node_id (sf_path f) (fd_name d)) ` set (sf_defs f))"





text \<open>
  The same two functions next to a third file, \<^verbatim>\<open>/app/solo.js\<close>, whose only
  function \<open>solo\<close> (lines 1 to 3) neither calls nor is called: a graph of three
  nodes whose edges are the cycle between \<open>ping\<close> and \<open>pong\<close>.
\<close>

definition ex_solo :: SourceFile where
  "ex_solo =
     \<lparr>sf_path = ''/app/solo.js'',
      sf_defs = [mk_def ''/app/solo.js'' ''solo'' 1 3],
      sf_calls = [],
      sf_imports = []\<rparr>"

definition ex_cyc3_state :: DependencyGraph where
  "ex_cyc3_state =
     \<lparr>graph =
        \<lparr>nodes = [(''/app/cyc.js:ping'', Some (mk_def ''/app/cyc.js'' ''ping'' 1 3)),
                  (''/app/cyc.js:pong'', Some (mk_def ''/app/cyc.js'' ''pong'' 5 7)),
                  (''/app/solo.js:solo'', Some (mk_def ''/app/solo.js'' ''solo'' 1 3))],
         edges = [(''/app/cyc.js:ping'', ''/app/cyc.js:pong''),
                  (''/app/cyc.js:pong'', ''/app/cyc.js:ping'')]\<rparr>,
      file_functions = [(''/app/cyc.js'', sf_defs ex_cyc), (''/app/solo.js'', sf_defs ex_solo)],
      file_calls = [(''/app/cyc.js'', sf_calls ex_cyc), (''/app/solo.js'', [])],
      file_imports = [(''/app/cyc.js'', []), (''/app/solo.js'', [])],
      symbol_table = [(''/app/cyc.js:ping'', mk_def ''/app/cyc.js'' ''ping'' 1 3),
                      (''/app/cyc.js:pong'', mk_def ''/app/cyc.js'' ''pong'' 5 7),
                      (''/app/solo.js:solo'', mk_def ''/app/solo.js'' ''solo'' 1 3)]\<rparr>"

section \<open>Properties\<close>

lemma enclosing_loop_None:
  "enclosing_loop line defs best = None \<longleftrightarrow> best = None \<and> (\<forall>d\<in>set defs. \<not> encloses d line)"
  by (induction defs arbitrary: best) (auto simp: encloses_def split: option.splits)

lemma enclosing_loop_Some:
  "enclosing_loop line defs best = Some r \<Longrightarrow>
     (best = Some r \<or> r \<in> set defs \<and> encloses r line)
     \<and> (\<forall>d\<in>set defs. encloses d line \<longrightarrow> span r \<le> span d)
     \<and> (\<forall>b. best = Some b \<longrightarrow> span r \<le> span b)"
proof (induction defs arbitrary: best)
  case Nil
  then show ?case by simp
next
  case (Cons d defs)
  show ?case
  proof (cases "encloses d line")
    case False
    have "enclosing_loop line defs best = Some r"
      using False Cons.prems by (auto simp: encloses_def)
    from Cons.IH[OF this] False show ?thesis by auto
  next
    case True
    show ?thesis
    proof (cases best)
      case None
      have "enclosing_loop line defs (Some d) = Some r"
        using None True Cons.prems by (auto simp: encloses_def)
      from Cons.IH[OF this] True None show ?thesis by auto
    next
      case (Some b)
      show ?thesis
      proof (cases "span d < span b")
        case lt: True
        have "enclosing_loop line defs (Some d) = Some r"
          using lt True Some Cons.prems by (auto simp: encloses_def span_def)
        from Cons.IH[OF this] True Some lt show ?thesis by auto
      next
        case ge: False
        have "enclosing_loop line defs best = Some r"
          using ge True Some Cons.prems by (auto simp: encloses_def span_def)
        from Cons.IH[OF this] True Some ge show ?thesis by auto
      qed
    qed
  qed
qed


text \<open>
  C9: among the definitions of the file whose inclusive line range contains the
  line, \<^verbatim>\<open>_find_enclosing_function\<close> returns the name of one with the smallest span
  \<open>end_line - start_line\<close>, and \<open>None\<close> when no definition of the file contains
  the line.
\<close>

theorem find_enclosing_function_innermost:
  "(enclosing_candidates s fp line = [] \<longrightarrow> find_enclosing_function s fp line = None)
   \<and> (enclosing_candidates s fp line \<noteq> [] \<longrightarrow>
        (\<exists>d\<in>set (enclosing_candidates s fp line).
           find_enclosing_function s fp line = Some (fd_name d)
           \<and> (\<forall>d'\<in>set (enclosing_candidates s fp line). span d \<le> span d')))"
proof (cases "enclosing_loop line (dict_get (file_functions s) fp []) None")
  case None
  then have "\<forall>d\<in>set (dict_get (file_functions s) fp []). \<not> encloses d line"
    by (simp add: enclosing_loop_None)
  with None show ?thesis
    by (simp add: find_enclosing_function_def enclosing_candidates_def filter_empty_conv)
next
  case (Some r)
  from enclosing_loop_Some[OF this] Some show ?thesis
    by (auto simp: find_enclosing_function_def enclosing_candidates_def filter_empty_conv)
qed

theorem find_enclosing_function_innermost_witness:
  "enclosing_candidates ex_state ''/app/lib.js'' 4 \<noteq> []
   \<and> (\<exists>d\<in>set (enclosing_candidates ex_state ''/app/lib.js'' 4).
         find_enclosing_function ex_state ''/app/lib.js'' 4 = Some (fd_name d)
         \<and> (\<forall>d'\<in>set (enclosing_candidates ex_state ''/app/lib.js'' 4). span d \<le> span d'))
   \<and> enclosing_candidates ex_state ''/app/lib.js'' 13 = []
   \<and> find_enclosing_function ex_state ''/app/lib.js'' 13 = None
   \<and> find_enclosing_function ex_state ''/app/lib.js'' 4 = Some ''inner''"
proof -
  have a: "enclosing_candidates ex_state ''/app/lib.js'' 4 \<noteq> []" by code_simp
  have b: "enclosing_candidates ex_state ''/app/lib.js'' 13 = []" by code_simp
  have c: "find_enclosing_function ex_state ''/app/lib.js'' 4 = Some ''inner''" by code_simp
  show ?thesis
    using a b c find_enclosing_function_innermost[of ex_state "''/app/lib.js''" 4]
      find_enclosing_function_innermost[of ex_state "''/app/lib.js''" 13]
    by blast
qed

text \<open>
  C10: an omitted depth argument means a depth of 5, for \<^verbatim>\<open>get_slice\<close> and for
  \<^verbatim>\<open>get_route_context\<close>.
\<close>

theorem default_depth_is_five:
  "get_slice rt s n None = get_slice rt s n (Some 5)
   \<and> get_route_context rt s r None = get_route_context rt s r (Some 5)"
  by (simp add: get_slice_def get_route_context_def default_depth_def)

lemma consistent_nodes:
  assumes "consistent s"
  shows "map_of (nodes (graph s)) n = map_option Some (map_of (symbol_table s) n)"
proof (cases "n \<in> set (map fst (nodes (graph s)) @ map fst (symbol_table s))")
  case True
  with assms show ?thesis
    unfolding consistent_def list_all_iff by blast
next
  case False
  then have "map_of (nodes (graph s)) n = None" "map_of (symbol_table s) n = None"
    by (auto simp: map_of_eq_None_iff)
  then show ?thesis by simp
qed

lemma set_order_single:
  assumes "set_order_ok f"
  shows "f [x] = [x]"
proof -
  have "mset (f [x]) = {#x#}"
    using assms unfolding set_order_ok_def by (metis distinct_singleton mset.simps(1,2))
  then show ?thesis by (simp add: mset_single_iff_right)
qed

text \<open>
  C5: in a consistent state, the slice of a registered node at depth 0 is the
  one-element list of the node's own definition.
\<close>

theorem get_slice_depth_zero:
  assumes "consistent s"
    and "map_of (symbol_table s) n = Some d"
    and "set_order_ok (set_order rt)"
  shows "get_slice rt s n (Some 0) = [d]"
proof -
  have nd: "map_of (nodes (graph s)) n = Some (Some d)"
    using consistent_nodes[OF assms(1), of n] assms(2) by simp
  then have "has_node (graph s) n" and "node_data (graph s) n = Some d"
    by (simp_all add: has_node_def has_key_def node_data_def)
  moreover have "bfs_reached (graph s) n 0 = [n]"
    by (simp add: bfs_reached_def)
  ultimately show ?thesis
    using set_order_single[OF assms(3), of n]
    by (simp add: get_slice_def default_depth_def List.map_filter_simps)
qed

theorem get_slice_depth_zero_witness:
  "consistent ex_state
   \<and> map_of (symbol_table ex_state) ''/app/lib.js:outer'' = Some (mk_def ''/app/lib.js'' ''outer'' 1 12)
   \<and> set_order_ok (set_order ex_rt)
   \<and> get_slice ex_rt ex_state ''/app/lib.js:outer'' (Some 0) = [mk_def ''/app/lib.js'' ''outer'' 1 12]"
proof -
  have a: "consistent ex_state" by code_simp
  have b: "map_of (symbol_table ex_state) ''/app/lib.js:outer'' = Some (mk_def ''/app/lib.js'' ''outer'' 1 12)"
    by code_simp
  have c: "set_order_ok (set_order ex_rt)"
    by (simp add: set_order_ok_def ex_rt_def)
  show ?thesis
    using a b c get_slice_depth_zero[OF a b c] by simp
qed

lemma visit_children_distinct:
  "visit_children cs (seen, nxt) = (seen', nxt') \<Longrightarrow> distinct seen \<Longrightarrow> distinct seen'"
proof (induction cs arbitrary: seen nxt)
  case Nil
  then show ?case by simp
next
  case (Cons c cs)
  show ?case
  proof (cases "c \<in> set seen")
    case True
    with Cons.prems have "visit_children cs (seen, nxt) = (seen', nxt')" by simp
    from Cons.IH[OF this Cons.prems(2)] show ?thesis .
  next
    case False
    with Cons.prems have "visit_children cs (seen @ [c], nxt @ [c]) = (seen', nxt')" by simp
    moreover have "distinct (seen @ [c])" using False Cons.prems(2) by simp
    ultimately show ?thesis by (rule Cons.IH)
  qed
qed

lemma visit_children_subset:
  "visit_children cs (seen, nxt) = (seen', nxt') \<Longrightarrow> set seen' \<subseteq> set seen \<union> set cs"
proof (induction cs arbitrary: seen nxt)
  case Nil
  then show ?case by simp
next
  case (Cons c cs)
  show ?case
  proof (cases "c \<in> set seen")
    case True
    with Cons.prems have "visit_children cs (seen, nxt) = (seen', nxt')" by simp
    from Cons.IH[OF this] show ?thesis by auto
  next
    case False
    with Cons.prems have "visit_children cs (seen @ [c], nxt @ [c]) = (seen', nxt')" by simp
    from Cons.IH[OF this] show ?thesis by auto
  qed
qed

lemma visit_parents_distinct:
  "visit_parents g ps (seen, nxt) = (stop, seen', nxt') \<Longrightarrow> distinct seen \<Longrightarrow> distinct seen'"
proof (induction ps arbitrary: seen nxt)
  case Nil
  then show ?case by simp
next
  case (Cons p ps)
  obtain s1 n1 where vc: "visit_children (neighbors g p) (seen, nxt) = (s1, n1)"
    by (cases "visit_children (neighbors g p) (seen, nxt)")
  have d1: "distinct s1" using visit_children_distinct[OF vc Cons.prems(2)] .
  show ?case
  proof (cases "length s1 = length (nodes g)")
    case True
    with Cons.prems(1) vc d1 show ?thesis by simp
  next
    case False
    with Cons.prems(1) vc have "visit_parents g ps (s1, n1) = (stop, seen', nxt')" by simp
    from Cons.IH[OF this d1] show ?thesis .
  qed
qed

lemma visit_parents_subset:
  "visit_parents g ps (seen, nxt) = (stop, seen', nxt')
   \<Longrightarrow> set seen' \<subseteq> set seen \<union> snd ` set (edges g)"
proof (induction ps arbitrary: seen nxt)
  case Nil
  then show ?case by auto
next
  case (Cons p ps)
  obtain s1 n1 where vc: "visit_children (neighbors g p) (seen, nxt) = (s1, n1)"
    by (cases "visit_children (neighbors g p) (seen, nxt)")
  have "set (neighbors g p) \<subseteq> snd ` set (edges g)"
    by (auto simp: neighbors_def)
  with visit_children_subset[OF vc] have s1: "set s1 \<subseteq> set seen \<union> snd ` set (edges g)"
    by blast
  show ?case
  proof (cases "length s1 = length (nodes g)")
    case True
    with Cons.prems(1) vc s1 show ?thesis by simp
  next
    case False
    with Cons.prems(1) vc have "visit_parents g ps (s1, n1) = (stop, seen', nxt')" by simp
    from Cons.IH[OF this] s1 show ?thesis by blast
  qed
qed

lemma bfs_levels_distinct:
  "distinct seen \<Longrightarrow> distinct (bfs_levels g k frontier seen)"
proof (induction k arbitrary: frontier seen)
  case 0
  then show ?case by simp
next
  case (Suc k)
  obtain stop s1 n1 where vp: "visit_parents g frontier (seen, []) = (stop, s1, n1)"
    by (cases "visit_parents g frontier (seen, [])")
  have d1: "distinct s1" using visit_parents_distinct[OF vp Suc.prems] .
  show ?case
    using vp d1 Suc.IH[OF d1] Suc.prems by (cases stop) simp_all
qed

lemma bfs_levels_subset:
  "set (bfs_levels g k frontier seen) \<subseteq> set seen \<union> snd ` set (edges g)"
proof (induction k arbitrary: frontier seen)
  case 0
  then show ?case by simp
next
  case (Suc k)
  obtain stop s1 n1 where vp: "visit_parents g frontier (seen, []) = (stop, s1, n1)"
    by (cases "visit_parents g frontier (seen, [])")
  have s1: "set s1 \<subseteq> set seen \<union> snd ` set (edges g)"
    using visit_parents_subset[OF vp] .
  show ?case
  proof (cases "frontier = []")
    case True
    then show ?thesis by simp
  next
    case False
    show ?thesis
    proof (cases stop)
      case True
      with vp False s1 show ?thesis by simp
    next
      case stop: False
      with vp False have "bfs_levels g (Suc k) frontier seen = bfs_levels g k n1 s1" by simp
      with Suc.IH[of n1 s1] s1 show ?thesis by auto
    qed
  qed
qed

lemma visit_children_single:
  assumes "set cs = {b}" and "b \<notin> set seen"
  shows "visit_children cs (seen, nxt) = (seen @ [b], nxt @ [b])"
proof -
  have skip: "visit_children ds (seen @ [b], nxt @ [b]) = (seen @ [b], nxt @ [b])"
    if "set ds \<subseteq> {b}" for ds
    using that by (induction ds) auto
  from assms(1) obtain ds where cs: "cs = b # ds" and ds: "set ds \<subseteq> {b}"
    by (cases cs) auto
  show ?thesis
    using assms(2) skip[OF ds] by (simp add: cs)
qed

lemma mset_map_filter_cong:
  "mset xs = mset ys \<Longrightarrow> mset (List.map_filter f xs) = mset (List.map_filter f ys)"
proof -
  assume eq: "mset xs = mset ys"
  have "mset (List.map_filter f zs)
        = image_mset (the \<circ> f) (filter_mset (\<lambda>x. f x \<noteq> None) (mset zs))" for zs
    by (simp add: List.map_filter_def)
  then show ?thesis by (simp only: eq)
qed

lemma visit_children_all_seen:
  "set cs \<subseteq> set seen \<Longrightarrow> visit_children cs (seen, nxt) = (seen, nxt)"
  by (induction cs) auto

lemma bfs_levels_no_frontier: "bfs_levels g k [] seen = seen"
  by (cases k) simp_all

lemma bfs_levels_cycle_second:
  assumes "set (neighbors g b) \<subseteq> {a, b}"
  shows "bfs_levels g k [b] [a, b] = [a, b]"
proof (cases k)
  case 0
  then show ?thesis by simp
next
  case (Suc k')
  have vc: "visit_children (neighbors g b) ([a, b], []) = ([a, b], [])"
    using assms by (intro visit_children_all_seen) simp
  show ?thesis
    unfolding Suc by (simp add: vc bfs_levels_no_frontier)
qed

lemma bfs_levels_cycle:
  assumes "a \<noteq> b" and "set (edges g) = {(a, b), (b, a)}"
  shows "bfs_levels g (Suc k) [a] [a] = [a, b]"
proof -
  have "set (neighbors g a) = {b}"
    unfolding neighbors_def using assms by force
  then have "visit_children (neighbors g a) ([a], []) = ([a] @ [b], [] @ [b])"
    using assms(1) by (intro visit_children_single) simp_all
  then have vc: "visit_children (neighbors g a) ([a], []) = ([a, b], [b])" by simp
  have "set (neighbors g b) \<subseteq> {a, b}"
    unfolding neighbors_def using assms by force
  then have again: "bfs_levels g k [b] [a, b] = [a, b]"
    by (rule bfs_levels_cycle_second)
  show ?thesis
    by (simp add: vc again)
qed

text \<open>
  C6: the traversal of \<^verbatim>\<open>get_slice\<close> is a total function of the graph, the start
  node and the depth (its loop is bounded by the depth limit), it never records a
  node twice, and everything it reaches besides the start node is the target of
  an edge. On a graph whose edges are the cycle between \<open>a\<close> and \<open>b\<close>,
  whatever other nodes it has, the slice of \<open>a\<close> at any depth of at least 1
  consists of exactly the definitions of \<open>a\<close> and \<open>b\<close>, once each.
\<close>

theorem get_slice_cycle:
  "distinct (bfs_reached (graph s) n depth)
   \<and> set (bfs_reached (graph s) n depth) \<subseteq> insert n (snd ` set (edges (graph s)))
   \<and> (a \<noteq> b \<and> set (edges (graph s)) = {(a, b), (b, a)}
        \<and> map_of (nodes (graph s)) a = Some (Some da)
        \<and> map_of (nodes (graph s)) b = Some (Some db)
        \<and> set_order_ok (set_order rt) \<and> 1 \<le> d
      \<longrightarrow> mset (get_slice rt s a (Some d)) = {#da, db#})"
proof (intro conjI impI)
  show "distinct (bfs_reached (graph s) n depth)"
    by (simp add: bfs_reached_def bfs_levels_distinct)
  show "set (bfs_reached (graph s) n depth) \<subseteq> insert n (snd ` set (edges (graph s)))"
    using bfs_levels_subset[of "graph s" "nat depth" "[n]" "[n]"]
    by (auto simp: bfs_reached_def)
next
  assume h: "a \<noteq> b \<and> set (edges (graph s)) = {(a, b), (b, a)}
        \<and> map_of (nodes (graph s)) a = Some (Some da)
        \<and> map_of (nodes (graph s)) b = Some (Some db)
        \<and> set_order_ok (set_order rt) \<and> 1 \<le> d"
  let ?g = "graph s"
  from h have ab: "a \<noteq> b" and ed: "set (edges ?g) = {(a, b), (b, a)}"
    and na: "map_of (nodes ?g) a = Some (Some da)"
    and nb: "map_of (nodes ?g) b = Some (Some db)"
    and ok: "set_order_ok (set_order rt)" and d1: "1 \<le> d"
    by blast+
  obtain k where k: "nat d = Suc k"
    using d1 by (cases "nat d") auto
  have "bfs_levels ?g (Suc k) [a] [a] = [a, b]"
    using ab ed by (rule bfs_levels_cycle)
  then have reach: "bfs_reached ?g a d = [a, b]"
    by (simp only: bfs_reached_def k)
  have "distinct [a, b]" using ab by simp
  then have "mset (set_order rt [a, b]) = mset [a, b]"
    using ok unfolding set_order_ok_def by blast
  then have "mset (List.map_filter (node_data ?g) (set_order rt [a, b]))
             = mset (List.map_filter (node_data ?g) [a, b])"
    by (rule mset_map_filter_cong)
  moreover have "List.map_filter (node_data ?g) [a, b] = [da, db]"
    using na nb by (simp add: List.map_filter_simps node_data_def)
  moreover have "has_node ?g a"
    using na by (simp add: has_node_def has_key_def)
  ultimately show "mset (get_slice rt s a (Some d)) = {#da, db#}"
    using reach by (simp add: get_slice_def default_depth_def)
qed


lemma ex_cyc3_build: "build_graph ex_rt [ex_cyc, ex_solo] init_state = Inr ex_cyc3_state"
  by code_simp

theorem get_slice_cycle_witness:
  "''/app/cyc.js:ping'' \<noteq> ''/app/cyc.js:pong''
   \<and> set (edges (graph ex_cyc3_state))
       = {(''/app/cyc.js:ping'', ''/app/cyc.js:pong''), (''/app/cyc.js:pong'', ''/app/cyc.js:ping'')}
   \<and> length (nodes (graph ex_cyc3_state)) = 3
   \<and> map_of (nodes (graph ex_cyc3_state)) ''/app/cyc.js:ping'' = Some (Some (mk_def ''/app/cyc.js'' ''ping'' 1 3))
   \<and> map_of (nodes (graph ex_cyc3_state)) ''/app/cyc.js:pong'' = Some (Some (mk_def ''/app/cyc.js'' ''pong'' 5 7))
   \<and> set_order_ok (set_order ex_rt) \<and> (1::int) \<le> 3
   \<and> mset (get_slice ex_rt ex_cyc3_state ''/app/cyc.js:ping'' (Some 3))
       = {#mk_def ''/app/cyc.js'' ''ping'' 1 3, mk_def ''/app/cyc.js'' ''pong'' 5 7#}
   \<and> mset (get_slice ex_rt ex_cyc_state ''/app/cyc.js:ping'' (Some 1))
       = {#mk_def ''/app/cyc.js'' ''ping'' 1 3, mk_def ''/app/cyc.js'' ''pong'' 5 7#}"
proof -
  have a: "''/app/cyc.js:ping'' \<noteq> ''/app/cyc.js:pong''" by simp
  have b: "set (edges (graph ex_cyc3_state))
       = {(''/app/cyc.js:ping'', ''/app/cyc.js:pong''), (''/app/cyc.js:pong'', ''/app/cyc.js:ping'')}"
    by (simp add: ex_cyc3_state_def)
  have b': "set (edges (graph ex_cyc_state))
       = {(''/app/cyc.js:ping'', ''/app/cyc.js:pong''), (''/app/cyc.js:pong'', ''/app/cyc.js:ping'')}"
    by (simp add: ex_cyc_state_def)
  have c: "length (nodes (graph ex_cyc3_state)) = 3" by (simp add: ex_cyc3_state_def)
  have d: "map_of (nodes (graph ex_cyc3_state)) ''/app/cyc.js:ping'' = Some (Some (mk_def ''/app/cyc.js'' ''ping'' 1 3))"
    by (simp add: ex_cyc3_state_def)
  have d': "map_of (nodes (graph ex_cyc_state)) ''/app/cyc.js:ping'' = Some (Some (mk_def ''/app/cyc.js'' ''ping'' 1 3))"
    by (simp add: ex_cyc_state_def)
  have e: "map_of (nodes (graph ex_cyc3_state)) ''/app/cyc.js:pong'' = Some (Some (mk_def ''/app/cyc.js'' ''pong'' 5 7))"
    by (simp add: ex_cyc3_state_def)
  have e': "map_of (nodes (graph ex_cyc_state)) ''/app/cyc.js:pong'' = Some (Some (mk_def ''/app/cyc.js'' ''pong'' 5 7))"
    by (simp add: ex_cyc_state_def)
  have f: "set_order_ok (set_order ex_rt)" by (simp add: set_order_ok_def ex_rt_def)
  show ?thesis
    using a b b' c d d' e e' f
      get_slice_cycle[of ex_cyc3_state "''/app/cyc.js:ping''" 3 "''/app/cyc.js:ping''"
        "''/app/cyc.js:pong''" "mk_def ''/app/cyc.js'' ''ping'' 1 3"
        "mk_def ''/app/cyc.js'' ''pong'' 5 7" ex_rt 3]
      get_slice_cycle[of ex_cyc_state "''/app/cyc.js:ping''" 1 "''/app/cyc.js:ping''"
        "''/app/cyc.js:pong''" "mk_def ''/app/cyc.js'' ''ping'' 1 3"
        "mk_def ''/app/cyc.js'' ''pong'' 5 7" ex_rt 1]
    by simp
qed

lemma ex_build: "build_graph ex_rt [ex_lib, ex_server] init_state = Inr ex_state"
  by code_simp

lemma resolve_import_path_bare:
  "\<not> starts_with_dot spec \<Longrightarrow> resolve_import_path rt file spec = Inr None"
  by (simp add: resolve_import_path_def)

lemma resolve_import_path_plain:
  assumes "starts_with_dot spec"
    and "path_name (resolve_path rt file spec) \<noteq> []"
    and "path_suffix (resolve_path rt file spec) = []"
  shows "resolve_import_path rt file spec =
           Inr (find (is_file rt)
                 [resolve_path rt file spec,
                  resolve_path rt file spec @ ''.js'',
                  resolve_path rt file spec @ ''.ts'',
                  joinpath (resolve_path rt file spec) ''index.js'',
                  joinpath (resolve_path rt file spec) ''index.ts''])"
  using assms by (simp add: resolve_import_path_def with_suffix_def Let_def)

lemma ex_svc_build: "build_graph ex_svc_rt ex_svc_files init_state = Inr ex_svc_state"
  by code_simp

text \<open>
  C3 at a module name with a dot: the file \<^verbatim>\<open>/app/user.service.js\<close> exists and
  defines the bound name, but the probes replace the part after the last dot
  instead of appending the extension, so \<^verbatim>\<open>/app/user.service.js\<close> is never probed
  and the import is not resolved. At a specifier that resolves to the root, the
  construction of the probes raises.
\<close>

theorem resolve_import_replaces_suffix:
  "is_file ex_svc_rt (resolve_path ex_svc_rt ''/app/routes.js'' ''./user.service'' @ ''.js'')
   \<and> has_key (symbol_table ex_svc_state)
         (node_id (resolve_path ex_svc_rt ''/app/routes.js'' ''./user.service'' @ ''.js'') ''getUser'')
   \<and> with_suffix (resolve_path ex_svc_rt ''/app/routes.js'' ''./user.service'') ''.js''
       = Inr ''/app/user.js''
   \<and> resolve_import_path ex_svc_rt ''/app/routes.js'' ''./user.service'' = Inr None
   \<and> resolve_call_via_imports ex_svc_rt ex_svc_state ''/app/routes.js'' ''getUser'' = Inr None
   \<and> resolve_import_path ex_root_rt ''/srv/app.js'' ''..'' = Inl ValueError"
  by code_simp

lemma ex_root_build: "build_graph ex_root_rt [ex_root_top] init_state = Inr ex_root_state"
  by code_simp

text \<open>
  C4 at a handler that calls a name imported from the parent directory of a file
  just below the root: the graph is built without error, and
  \<^verbatim>\<open>get_route_context\<close> raises \<^verbatim>\<open>ValueError\<close> instead of returning a string.
\<close>

theorem get_route_context_raises:
  "build_graph ex_root_rt [ex_root_top] init_state = Inr ex_root_state
   \<and> get_route_context ex_root_rt ex_root_state ex_root_route (Some 5) = Inl ValueError"
  by code_simp

text \<open>
  C7 at a call, inside a function, of a name imported from the parent directory of
  a file just below the root: the call resolves to no definition, and
  \<^verbatim>\<open>build_graph\<close> raises \<^verbatim>\<open>ValueError\<close>.
\<close>

theorem build_graph_raises:
  "find_enclosing_function (phase1 [ex_root_fn] init_state) ''/srv/app.js'' 3 = Some ''f''
   \<and> symbol_table (phase1 [ex_root_fn] init_state) = [(''/srv/app.js:f'', mk_def ''/srv/app.js'' ''f'' 2 4)]
   \<and> build_graph ex_root_rt [ex_root_fn] init_state = Inl ValueError"
  by code_simp

lemma has_key_iff: "has_key d k \<longleftrightarrow> k \<in> fst ` set d"
  by (simp add: has_key_def map_of_eq_None_iff)

lemma ensure_node_existing: "has_key ns n \<Longrightarrow> ensure_node ns n = ns"
  by (simp add: ensure_node_def)

lemma add_edge_existing:
  assumes "has_node g u" and "has_node g v"
  shows "nodes (add_edge g u v) = nodes g"
    and "set (edges (add_edge g u v)) = insert (u, v) (set (edges g))"
  using assms by (auto simp: add_edge_def has_node_def ensure_node_existing)

lemma resolve_imports_loop_cong:
  assumes "\<And>k. has_key (symbol_table s) k = has_key (symbol_table s') k"
  shows "resolve_imports_loop rt s fp name imps = resolve_imports_loop rt s' fp name imps"
  by (induction imps) (simp_all add: assms Let_def split: sum.splits option.splits)

lemma resolve_imports_loop_Some:
  "resolve_imports_loop rt s fp name imps = Inr (Some r) \<Longrightarrow> has_key (symbol_table s) r"
  by (induction imps) (auto simp: Let_def split: sum.splits option.splits if_splits)

lemma call_edge_cong:
  assumes "map_of (file_functions s) = map_of (file_functions s')"
    and "map_of (file_imports s) = map_of (file_imports s')"
    and "\<And>k. has_key (symbol_table s) k = has_key (symbol_table s') k"
    and "\<And>k. has_node (graph s) k = has_node (graph s') k"
  shows "call_edge rt s fp c = call_edge rt s' fp c"
proof -
  have 1: "dict_get (file_functions s) fp [] = dict_get (file_functions s') fp []"
    by (simp add: dict_get_def assms(1))
  have 2: "dict_get (file_imports s) fp [] = dict_get (file_imports s') fp []"
    by (simp add: dict_get_def assms(2))
  have 3: "find_enclosing_function s fp l = find_enclosing_function s' fp l" for l
    by (simp add: find_enclosing_function_def 1)
  have 4: "resolve_call_via_imports rt s fp n = resolve_call_via_imports rt s' fp n" for n
    unfolding resolve_call_via_imports_def 2
    by (rule resolve_imports_loop_cong) (rule assms(3))
  show ?thesis
    unfolding call_edge_def 1 3 4 assms(4) ..
qed

lemma call_edge_Some:
  assumes "call_edge rt s fp c = Inr (Some (u, v))"
  shows "has_node (graph s) u \<and> (has_node (graph s) v \<or> has_key (symbol_table s) v)"
proof -
  have "has_key (symbol_table s) r" if "resolve_call_via_imports rt s fp n = Inr (Some r)" for n r
    using that resolve_imports_loop_Some by (simp add: resolve_call_via_imports_def)
  then show ?thesis
    using assms unfolding call_edge_def
    by (auto split: option.splits if_splits sum.splits)
qed

lemma resolve_calls_loop_step:
  "resolve_calls_loop rt fp (map fd_name (dict_get (file_functions s) fp [])) (c # cs) s =
     (case call_edge rt s fp c of
        Inl e \<Rightarrow> Inl e
      | Inr None \<Rightarrow> resolve_calls_loop rt fp (map fd_name (dict_get (file_functions s) fp [])) cs s
      | Inr (Some (u, v)) \<Rightarrow>
          resolve_calls_loop rt fp (map fd_name (dict_get (file_functions s) fp [])) cs
            (s\<lparr>graph := add_edge (graph s) u v\<rparr>))"
  by (simp add: call_edge_def Let_def split: option.splits sum.splits)


lemma has_node_cong: "nodes g' = nodes g \<Longrightarrow> has_node g' k = has_node g k"
  by (simp add: has_node_def)

lemma call_edge_graph_update:
  assumes "nodes g' = nodes (graph s)"
  shows "call_edge rt (s\<lparr>graph := g'\<rparr>) fp c = call_edge rt s fp c"
  by (rule call_edge_cong) (simp_all add: has_node_cong[OF assms])

lemma resolve_calls_loop_results:
  assumes "\<And>k. has_key (symbol_table s) k \<Longrightarrow> has_node (graph s) k"
  shows "resolve_calls_loop rt fp (map fd_name (dict_get (file_functions s) fp [])) cs s
         = apply_results (map (call_edge rt s fp) cs) s"
  using assms
proof (induction cs arbitrary: s)
  case Nil
  then show ?case by simp
next
  case (Cons c cs)
  let ?ln = "\<lambda>s. map fd_name (dict_get (file_functions s) fp [])"
  show ?case
  proof (cases "call_edge rt s fp c")
    case (Inl e)
    then show ?thesis by (simp add: resolve_calls_loop_step del: resolve_calls_loop.simps)
  next
    case (Inr r)
    show ?thesis
    proof (cases r)
      case None
      with Inr Cons.IH[of s] Cons.prems show ?thesis
        by (simp add: resolve_calls_loop_step del: resolve_calls_loop.simps)
    next
      case (Some e)
      obtain u v where e: "e = (u, v)" by (cases e)
      let ?s2 = "s\<lparr>graph := add_edge (graph s) u v\<rparr>"
      have ce: "call_edge rt s fp c = Inr (Some (u, v))" using Inr Some e by simp
      from call_edge_Some[OF ce] Cons.prems
      have hn: "has_node (graph s) u" "has_node (graph s) v" by auto
      have nodes2: "nodes (add_edge (graph s) u v) = nodes (graph s)"
        using add_edge_existing(1)[OF hn] .
      have inv2: "\<And>k. has_key (symbol_table ?s2) k \<Longrightarrow> has_node (graph ?s2) k"
        using Cons.prems by (simp add: has_node_cong[OF nodes2])
      have same: "call_edge rt ?s2 fp = call_edge rt s fp"
        using call_edge_graph_update[OF nodes2] by (intro ext)
      have "resolve_calls_loop rt fp (?ln ?s2) cs ?s2
            = apply_results (map (call_edge rt ?s2 fp) cs) ?s2"
        using inv2 by (rule Cons.IH)
      then have "resolve_calls_loop rt fp (?ln s) cs ?s2
            = apply_results (map (call_edge rt s fp) cs) ?s2"
        by (simp add: same)
      with ce show ?thesis
        by (simp add: resolve_calls_loop_step del: resolve_calls_loop.simps)
    qed
  qed
qed

lemma apply_results_append:
  "apply_results (xs @ ys) s =
     (case apply_results xs s of Inl e \<Rightarrow> Inl e | Inr s' \<Rightarrow> apply_results ys s')"
  by (induction xs s rule: apply_results.induct) simp_all

lemma apply_results_Inl_iff:
  "(\<exists>e. apply_results rs s = Inl e) \<longleftrightarrow> (\<exists>r\<in>set rs. isl r)"
  by (induction rs s rule: apply_results.induct) auto

lemma apply_results_Inr:
  assumes "apply_results rs s = Inr s'"
    and "\<And>u v. Inr (Some (u, v)) \<in> set rs \<Longrightarrow> has_node (graph s) u \<and> has_node (graph s) v"
  shows "nodes (graph s') = nodes (graph s)
         \<and> set (edges (graph s')) = set (edges (graph s)) \<union> {e. Inr (Some e) \<in> set rs}
         \<and> file_functions s' = file_functions s \<and> file_calls s' = file_calls s
         \<and> file_imports s' = file_imports s \<and> symbol_table s' = symbol_table s"
  using assms
proof (induction rs s rule: apply_results.induct)
  case (1 s)
  then show ?case by auto
next
  case (2 e rs s)
  then show ?case by simp
next
  case (3 rs s)
  have "apply_results rs s = Inr s'" using "3.prems"(1) by simp
  moreover have "\<And>u v. Inr (Some (u, v)) \<in> set rs \<Longrightarrow> has_node (graph s) u \<and> has_node (graph s) v"
    using "3.prems"(2) by simp
  ultimately have "nodes (graph s') = nodes (graph s)
         \<and> set (edges (graph s')) = set (edges (graph s)) \<union> {e. Inr (Some e) \<in> set rs}
         \<and> file_functions s' = file_functions s \<and> file_calls s' = file_calls s
         \<and> file_imports s' = file_imports s \<and> symbol_table s' = symbol_table s"
    by (rule "3.IH")
  then show ?case by auto
next
  case (4 u v rs s)
  let ?s2 = "s\<lparr>graph := add_edge (graph s) u v\<rparr>"
  have hn: "has_node (graph s) u" "has_node (graph s) v"
    using "4.prems"(2)[of u v] by simp_all
  have nodes2: "nodes (graph ?s2) = nodes (graph s)"
    using add_edge_existing(1)[OF hn] by simp
  have edges2: "set (edges (graph ?s2)) = insert (u, v) (set (edges (graph s)))"
    using add_edge_existing(2)[OF hn] by simp
  have "apply_results rs ?s2 = Inr s'" using "4.prems"(1) by simp
  moreover have "\<And>a b. Inr (Some (a, b)) \<in> set rs
      \<Longrightarrow> has_node (graph ?s2) a \<and> has_node (graph ?s2) b"
    using "4.prems"(2) has_node_cong[OF nodes2] by auto
  ultimately have "nodes (graph s') = nodes (graph ?s2)
         \<and> set (edges (graph s')) = set (edges (graph ?s2)) \<union> {e. Inr (Some e) \<in> set rs}
         \<and> file_functions s' = file_functions ?s2 \<and> file_calls s' = file_calls ?s2
         \<and> file_imports s' = file_imports ?s2 \<and> symbol_table s' = symbol_table ?s2"
    by (rule "4.IH")
  then show ?case
    unfolding nodes2 edges2 by auto
qed

lemma call_results_good:
  assumes "\<And>k. has_key (symbol_table s) k \<Longrightarrow> has_node (graph s) k"
    and "Inr (Some (u, v)) \<in> set (call_results rt s entries)"
  shows "has_node (graph s) u \<and> has_node (graph s) v"
proof -
  from assms(2) obtain fp c where "call_edge rt s fp c = Inr (Some (u, v))"
    by (auto simp: call_results_def)
  from call_edge_Some[OF this] assms(1) show ?thesis by auto
qed

lemma call_results_Cons:
  "call_results rt s ((fp, cs) # rest) = map (call_edge rt s fp) cs @ call_results rt s rest"
  by (simp add: call_results_def)

lemma phase2_results:
  assumes "\<And>k. has_key (symbol_table s) k \<Longrightarrow> has_node (graph s) k"
  shows "phase2 rt entries s = apply_results (call_results rt s entries) s"
  using assms
proof (induction entries arbitrary: s)
  case Nil
  then show ?case by (simp add: call_results_def)
next
  case (Cons entry rest)
  obtain fp cs where entry: "entry = (fp, cs)" by (cases entry)
  have rc: "resolve_calls rt fp cs s = apply_results (map (call_edge rt s fp) cs) s"
    unfolding resolve_calls_def using Cons.prems by (rule resolve_calls_loop_results)
  show ?case
  proof (cases "apply_results (map (call_edge rt s fp) cs) s")
    case (Inl e)
    then show ?thesis
      by (simp add: entry rc call_results_Cons apply_results_append)
  next
    case (Inr s')
    have good: "\<And>u v. Inr (Some (u, v)) \<in> set (map (call_edge rt s fp) cs)
        \<Longrightarrow> has_node (graph s) u \<and> has_node (graph s) v"
      using call_results_good[OF Cons.prems, of _ _ rt "[(fp, cs)]"]
      by (simp add: call_results_def)
    from apply_results_Inr[OF Inr good]
    have same: "nodes (graph s') = nodes (graph s)" "file_functions s' = file_functions s"
      "file_imports s' = file_imports s" "symbol_table s' = symbol_table s"
      by simp_all
    have inv': "\<And>k. has_key (symbol_table s') k \<Longrightarrow> has_node (graph s') k"
      using Cons.prems by (simp add: same has_node_def)
    have ce: "call_edge rt s' fp' c = call_edge rt s fp' c" for fp' c
      by (rule call_edge_cong) (simp_all add: same has_node_def)
    then have "call_edge rt s' = call_edge rt s" by (intro ext)
    then have "call_results rt s' rest = call_results rt s rest"
      by (simp add: call_results_def)
    with Cons.IH[OF inv'] have "phase2 rt rest s' = apply_results (call_results rt s rest) s'"
      by simp
    with Inr show ?thesis
      by (simp add: entry rc call_results_Cons apply_results_append)
  qed
qed

lemma register_defs_unchanged:
  "file_functions (register_defs p ds s) = file_functions s
   \<and> file_calls (register_defs p ds s) = file_calls s
   \<and> file_imports (register_defs p ds s) = file_imports s
   \<and> edges (graph (register_defs p ds s)) = edges (graph s)"
  by (induction ds arbitrary: s) (simp_all add: add_node_def)

lemma register_defs_keys:
  "fst ` set (symbol_table (register_defs p ds s))
     = fst ` set (symbol_table s) \<union> (\<lambda>d. node_id p (fd_name d)) ` set ds"
  by (induction ds arbitrary: s) (auto simp: AList.dom_update)

lemma register_defs_nodes:
  assumes "\<And>n. map_of (nodes (graph s)) n = map_option Some (map_of (symbol_table s) n)"
  shows "map_of (nodes (graph (register_defs p ds s))) n
         = map_option Some (map_of (symbol_table (register_defs p ds s)) n)"
  using assms
proof (induction ds arbitrary: s)
  case Nil
  then show ?case by simp
next
  case (Cons d ds)
  show ?case
    unfolding register_defs.simps
    by (rule Cons.IH) (simp add: add_node_def AList.update_conv' Cons.prems)
qed

lemma register_file_unfold:
  "file_functions (register_file f s) = AList.update (sf_path f) (sf_defs f) (file_functions s)"
  "file_calls (register_file f s) = AList.update (sf_path f) (sf_calls f) (file_calls s)"
  "file_imports (register_file f s) = AList.update (sf_path f) (sf_imports f) (file_imports s)"
  "edges (graph (register_file f s)) = edges (graph s)"
  "fst ` set (symbol_table (register_file f s))
     = fst ` set (symbol_table s) \<union> (\<lambda>d. node_id (sf_path f) (fd_name d)) ` set (sf_defs f)"
  by (simp_all add: register_file_def register_defs_unchanged register_defs_keys)

lemma register_file_nodes:
  assumes "\<And>n. map_of (nodes (graph s)) n = map_option Some (map_of (symbol_table s) n)"
  shows "map_of (nodes (graph (register_file f s))) n
         = map_option Some (map_of (symbol_table (register_file f s)) n)"
  unfolding register_file_def by (rule register_defs_nodes) (simp add: assms)

lemma phase1_edges: "edges (graph (phase1 files s)) = edges (graph s)"
  by (induction files arbitrary: s) (simp_all add: register_file_unfold)

lemma phase1_keys:
  "fst ` set (symbol_table (phase1 files s)) = fst ` set (symbol_table s) \<union> registered_ids files"
  by (induction files arbitrary: s) (auto simp: register_file_unfold registered_ids_def)

lemma phase1_nodes:
  assumes "\<And>n. map_of (nodes (graph s)) n = map_option Some (map_of (symbol_table s) n)"
  shows "map_of (nodes (graph (phase1 files s))) n
         = map_option Some (map_of (symbol_table (phase1 files s)) n)"
  using assms
proof (induction files arbitrary: s)
  case Nil
  then show ?case by simp
next
  case (Cons f fs)
  show ?case
    unfolding phase1.simps by (rule Cons.IH) (rule register_file_nodes, rule Cons.prems)
qed

lemma map_upd_add_commute:
  assumes "k \<notin> dom m2"
  shows "m1(k \<mapsto> v) ++ m2 = m1 ++ m2(k \<mapsto> v)"
  using assms by (simp add: map_add_upd_left)

lemma fold_update_map_of:
  assumes "distinct (map fst kvs)"
  shows "map_of (fold (\<lambda>kv d. AList.update (fst kv) (snd kv) d) kvs d0) = map_of d0 ++ map_of kvs"
  using assms
proof (induction kvs arbitrary: d0)
  case Nil
  then show ?case by simp
next
  case (Cons kv kvs)
  have none: "map_of kvs (fst kv) = None"
    using Cons.prems by (simp add: map_of_eq_None_iff)
  have "distinct (map fst kvs)" using Cons.prems by simp
  from Cons.IH[OF this, of "AList.update (fst kv) (snd kv) d0"]
  have "map_of (fold (\<lambda>kv d. AList.update (fst kv) (snd kv) d) (kv # kvs) d0)
        = (map_of d0)(fst kv \<mapsto> snd kv) ++ map_of kvs"
    by (simp only: fold_simps AList.update_conv')
  also have "\<dots> = map_of d0 ++ map_of (kv # kvs)"
  proof (rule ext)
    fix k
    show "((map_of d0)(fst kv \<mapsto> snd kv) ++ map_of kvs) k = (map_of d0 ++ map_of (kv # kvs)) k"
      using none by (cases "k = fst kv") (simp_all add: map_add_def split: option.splits)
  qed
  finally show ?case .
qed

lemma phase1_as_fold:
  "file_functions (phase1 files s)
     = fold (\<lambda>kv d. AList.update (fst kv) (snd kv) d) (map (\<lambda>f. (sf_path f, sf_defs f)) files)
         (file_functions s)"
  "file_calls (phase1 files s)
     = fold (\<lambda>kv d. AList.update (fst kv) (snd kv) d) (map (\<lambda>f. (sf_path f, sf_calls f)) files)
         (file_calls s)"
  "file_imports (phase1 files s)
     = fold (\<lambda>kv d. AList.update (fst kv) (snd kv) d) (map (\<lambda>f. (sf_path f, sf_imports f)) files)
         (file_imports s)"
  by (induction files arbitrary: s) (simp_all add: register_file_unfold)

lemma phase1_stores:
  assumes "distinct (map sf_path files)"
  shows "map_of (file_functions (phase1 files s))
           = map_of (file_functions s) ++ map_of (map (\<lambda>f. (sf_path f, sf_defs f)) files)"
    and "map_of (file_calls (phase1 files s))
           = map_of (file_calls s) ++ map_of (map (\<lambda>f. (sf_path f, sf_calls f)) files)"
    and "map_of (file_imports (phase1 files s))
           = map_of (file_imports s) ++ map_of (map (\<lambda>f. (sf_path f, sf_imports f)) files)"
  unfolding phase1_as_fold
  by (rule fold_update_map_of, simp add: comp_def assms)+

lemma phase1_calls_distinct:
  "distinct (map fst (file_calls s)) \<Longrightarrow> distinct (map fst (file_calls (phase1 files s)))"
  by (induction files arbitrary: s) (simp_all add: register_file_unfold AList.distinct_update)


lemma set_call_results:
  "set (call_results rt s entries)
     = (\<Union>entry\<in>set entries. call_edge rt s (fst entry) ` set (snd entry))"
  by (auto simp: call_results_def split: prod.splits)

lemma has_node_iff_key:
  assumes "\<And>n. map_of (nodes (graph s)) n = map_option Some (map_of (symbol_table s) n)"
  shows "has_node (graph s) k = has_key (symbol_table s) k"
  by (simp add: has_node_def has_key_def assms)

lemma build_graph_results:
  assumes "\<And>n. map_of (nodes (graph s)) n = map_option Some (map_of (symbol_table s) n)"
  shows "build_graph rt files s
         = apply_results (call_results rt (phase1 files s) (file_calls (phase1 files s)))
             (phase1 files s)"
proof -
  have "has_node (graph (phase1 files s)) k" if "has_key (symbol_table (phase1 files s)) k" for k
    using that has_node_iff_key[of "phase1 files s" k] phase1_nodes[of s files, OF assms]
    by simp
  then show ?thesis
    by (simp add: build_graph_def Let_def phase2_results)
qed

lemma init_state_nodes:
  "map_of (nodes (graph init_state)) n = map_option Some (map_of (symbol_table init_state) n)"
  by (simp add: init_state_def empty_graph_def)

lemma error_unique: "(e :: error) = e'"
  by (cases e, cases e') simp

text \<open>
  C8: on a fresh instance, building the graph from the same source files in any
  order of processing gives the same outcome: either both builds raise, or both
  return and the node sets and the edge sets are equal.
\<close>

theorem build_graph_order_independent:
  assumes "mset files' = mset files" and "distinct (map sf_path files)"
  shows "map_sum id (\<lambda>s. (node_set s, edge_set s)) (build_graph rt files' init_state)
         = map_sum id (\<lambda>s. (node_set s, edge_set s)) (build_graph rt files init_state)"
proof -
  define s1 where "s1 = phase1 files init_state"
  define s1' where "s1' = phase1 files' init_state"
  have sets: "set files' = set files" using assms(1) by (rule mset_eq_setD)
  have "mset (map sf_path files') = mset (map sf_path files)" using assms(1) by simp
  then have dist': "distinct (map sf_path files')"
    using assms(2) mset_eq_imp_distinct_iff by blast
  have P1: "map_of (nodes (graph s1)) n = map_option Some (map_of (symbol_table s1) n)" for n
    unfolding s1_def by (rule phase1_nodes) (rule init_state_nodes)
  have P1': "map_of (nodes (graph s1')) n = map_option Some (map_of (symbol_table s1') n)" for n
    unfolding s1'_def by (rule phase1_nodes) (rule init_state_nodes)
  have alist_eq: "map_of (map (\<lambda>f. (sf_path f, g f)) files') = map_of (map (\<lambda>f. (sf_path f, g f)) files)"
    for g :: "SourceFile \<Rightarrow> 'a"
  proof -
    have "distinct (map fst (map (\<lambda>f. (sf_path f, g f)) files'))"
      "distinct (map fst (map (\<lambda>f. (sf_path f, g f)) files))"
      using dist' assms(2) by (simp_all add: comp_def)
    moreover have "set (map (\<lambda>f. (sf_path f, g f)) files') = set (map (\<lambda>f. (sf_path f, g f)) files)"
      by (simp add: sets)
    ultimately show ?thesis by (simp add: map_of_inject_set)
  qed
  have ff: "map_of (file_functions s1') = map_of (file_functions s1)"
    unfolding s1_def s1'_def by (simp add: phase1_stores(1) assms(2) dist' alist_eq)
  have fc: "map_of (file_calls s1') = map_of (file_calls s1)"
    unfolding s1_def s1'_def by (simp add: phase1_stores(2) assms(2) dist' alist_eq)
  have fi: "map_of (file_imports s1') = map_of (file_imports s1)"
    unfolding s1_def s1'_def by (simp add: phase1_stores(3) assms(2) dist' alist_eq)
  have "registered_ids files' = registered_ids files"
    by (simp add: registered_ids_def sets)
  then have keys: "fst ` set (symbol_table s1') = fst ` set (symbol_table s1)"
    unfolding s1_def s1'_def by (simp add: phase1_keys)
  then have hk: "has_key (symbol_table s1') k = has_key (symbol_table s1) k" for k
    by (simp add: has_key_def map_of_eq_None_iff)
  have hn: "has_node (graph s1') k = has_node (graph s1) k" for k
    using has_node_iff_key[of s1' k, OF P1'] has_node_iff_key[of s1 k, OF P1] hk by simp
  have "call_edge rt s1' fp c = call_edge rt s1 fp c" for fp c
    by (rule call_edge_cong) (simp_all add: ff fi hk hn)
  then have ce: "call_edge rt s1' = call_edge rt s1" by (intro ext)
  have "distinct (map fst (file_calls s1'))" "distinct (map fst (file_calls s1))"
    unfolding s1_def s1'_def by (rule phase1_calls_distinct, simp add: init_state_def)+
  then have entries: "set (file_calls s1') = set (file_calls s1)"
    using fc by (simp add: map_of_inject_set)
  define rs where "rs = call_results rt s1 (file_calls s1)"
  define rs' where "rs' = call_results rt s1' (file_calls s1')"
  have rs_eq: "set rs' = set rs"
    unfolding rs_def rs'_def set_call_results ce entries ..
  have b: "build_graph rt files init_state = apply_results rs s1"
    unfolding rs_def s1_def by (rule build_graph_results) (rule init_state_nodes)
  have b': "build_graph rt files' init_state = apply_results rs' s1'"
    unfolding rs'_def s1'_def by (rule build_graph_results) (rule init_state_nodes)
  have node_keys: "fst ` set (nodes (graph s1')) = fst ` set (nodes (graph s1))"
    using hn by (auto simp: has_node_def has_key_def map_of_eq_None_iff)
  have no_edges: "edges (graph s1) = []" "edges (graph s1') = []"
    unfolding s1_def s1'_def by (simp_all add: phase1_edges init_state_def empty_graph_def)
  show ?thesis
  proof (cases "\<exists>r\<in>set rs. isl r")
    case True
    then obtain e where "apply_results rs s1 = Inl e"
      using apply_results_Inl_iff[of rs s1] by blast
    moreover from True rs_eq obtain e' where "apply_results rs' s1' = Inl e'"
      using apply_results_Inl_iff[of rs' s1'] by auto
    ultimately show ?thesis
      by (simp add: b b' error_unique[of e e'])
  next
    case False
    then obtain t where t: "apply_results rs s1 = Inr t"
      using apply_results_Inl_iff[of rs s1] by (cases "apply_results rs s1") auto
    from False rs_eq obtain t' where t': "apply_results rs' s1' = Inr t'"
      using apply_results_Inl_iff[of rs' s1'] by (cases "apply_results rs' s1'") auto
    have inv: "has_node (graph s1) k" if "has_key (symbol_table s1) k" for k
      using that has_node_iff_key[of s1 k, OF P1] by simp
    have inv': "has_node (graph s1') k" if "has_key (symbol_table s1') k" for k
      using that has_node_iff_key[of s1' k, OF P1'] by simp
    have good: "has_node (graph s1) u \<and> has_node (graph s1) v" if "Inr (Some (u, v)) \<in> set rs" for u v
      using that unfolding rs_def by (intro call_results_good[OF inv]) auto
    have good': "has_node (graph s1') u \<and> has_node (graph s1') v" if "Inr (Some (u, v)) \<in> set rs'" for u v
      using that unfolding rs'_def by (intro call_results_good[OF inv']) auto
    from apply_results_Inr[OF t good]
    have r: "nodes (graph t) = nodes (graph s1)" "set (edges (graph t)) = {e. Inr (Some e) \<in> set rs}"
      by (simp_all add: no_edges)
    from apply_results_Inr[OF t' good']
    have r': "nodes (graph t') = nodes (graph s1')" "set (edges (graph t')) = {e. Inr (Some e) \<in> set rs'}"
      by (simp_all add: no_edges)
    show ?thesis
      by (simp add: b b' t t' node_set_def edge_set_def r r' rs_eq node_keys)
  qed
qed


theorem build_graph_order_independent_witness:
  "mset [ex_server, ex_lib] = mset [ex_lib, ex_server]
   \<and> distinct (map sf_path [ex_lib, ex_server])
   \<and> map_sum id (\<lambda>s. (node_set s, edge_set s)) (build_graph ex_rt [ex_server, ex_lib] init_state)
       = map_sum id (\<lambda>s. (node_set s, edge_set s)) (build_graph ex_rt [ex_lib, ex_server] init_state)
   \<and> map_sum id edge_set (build_graph ex_rt [ex_lib, ex_server] init_state)
       = Inr {(''/app/lib.js:outer'', ''/app/lib.js:helper''),
              (''/app/lib.js:helper'', ''/app/lib.js:leaf'')}"
proof -
  have a: "mset [ex_server, ex_lib] = mset [ex_lib, ex_server]" by simp
  have b: "distinct (map sf_path [ex_lib, ex_server])" by code_simp
  have c: "map_sum id edge_set (build_graph ex_rt [ex_lib, ex_server] init_state)
       = Inr {(''/app/lib.js:outer'', ''/app/lib.js:helper''),
              (''/app/lib.js:helper'', ''/app/lib.js:leaf'')}"
    by (simp add: ex_build edge_set_def ex_state_def)
  show ?thesis
    using a b c build_graph_order_independent[OF a b, of ex_rt] by simp
qed

lemma consistent_iff:
  "consistent s \<longleftrightarrow>
     (\<forall>n. map_of (nodes (graph s)) n = map_option Some (map_of (symbol_table s) n))
     \<and> (\<forall>e\<in>set (edges (graph s)). has_key (symbol_table s) (fst e) \<and> has_key (symbol_table s) (snd e))"
proof
  assume c: "consistent s"
  then show "(\<forall>n. map_of (nodes (graph s)) n = map_option Some (map_of (symbol_table s) n))
     \<and> (\<forall>e\<in>set (edges (graph s)). has_key (symbol_table s) (fst e) \<and> has_key (symbol_table s) (snd e))"
    using consistent_nodes[OF c] by (simp add: consistent_def list_all_iff)
next
  assume "(\<forall>n. map_of (nodes (graph s)) n = map_option Some (map_of (symbol_table s) n))
     \<and> (\<forall>e\<in>set (edges (graph s)). has_key (symbol_table s) (fst e) \<and> has_key (symbol_table s) (snd e))"
  then show "consistent s"
    by (simp add: consistent_def list_all_iff)
qed

lemma init_state_consistent: "consistent init_state"
  by (simp add: consistent_def init_state_def empty_graph_def)

text \<open>
  Every build that returns keeps the state consistent: the nodes are the keys of
  the symbol table, and both endpoints of every edge are registered.
\<close>

lemma build_graph_consistent:
  assumes "consistent s" and "build_graph rt files s = Inr s'"
  shows "consistent s'"
proof -
  define s1 where "s1 = phase1 files s"
  define rs where "rs = call_results rt s1 (file_calls s1)"
  have P0: "map_of (nodes (graph s)) n = map_option Some (map_of (symbol_table s) n)" for n
    using assms(1) by (simp add: consistent_iff)
  have P1: "map_of (nodes (graph s1)) n = map_option Some (map_of (symbol_table s1) n)" for n
    unfolding s1_def by (rule phase1_nodes) (rule P0)
  have t: "apply_results rs s1 = Inr s'"
    using assms(2) build_graph_results[of s rt files, OF P0] by (simp add: rs_def s1_def)
  have inv: "has_node (graph s1) k" if "has_key (symbol_table s1) k" for k
    using that has_node_iff_key[of s1 k, OF P1] by simp
  have good: "has_node (graph s1) u \<and> has_node (graph s1) v" if "Inr (Some (u, v)) \<in> set rs" for u v
    using that unfolding rs_def by (intro call_results_good[OF inv]) auto
  from apply_results_Inr[OF t good]
  have r: "nodes (graph s') = nodes (graph s1)" "symbol_table s' = symbol_table s1"
    "set (edges (graph s')) = set (edges (graph s)) \<union> {e. Inr (Some e) \<in> set rs}"
    by (simp_all add: s1_def phase1_edges)
  have old: "has_key (symbol_table s1) (fst e) \<and> has_key (symbol_table s1) (snd e)"
    if "e \<in> set (edges (graph s))" for e
  proof -
    from that assms(1) have "has_key (symbol_table s) (fst e) \<and> has_key (symbol_table s) (snd e)"
      by (simp add: consistent_iff)
    then show ?thesis
      by (simp add: has_key_iff s1_def phase1_keys)
  qed
  have new: "has_key (symbol_table s1) (fst e) \<and> has_key (symbol_table s1) (snd e)"
    if "Inr (Some e) \<in> set rs" for e
    using good[of "fst e" "snd e"] that has_node_iff_key[of s1, OF P1] by simp
  show ?thesis
    unfolding consistent_iff r using P1 old new by auto
qed





























end
